theory Spec2Isabelle
  imports Main "HOL-Library.Sublist"
begin

section \<open>The outbound worker of enproxy (conn\_impl\_requests.go)\<close>

text \<open>
  The worker goroutine \<open>processRequests\<close> is a sequential program. What it reads from
  the outside (the result of \<open>isClosed\<close>, \<open>isIdle\<close>, \<open>dialProxy\<close>,
  \<open>redialProxyIfNecessary\<close>, \<open>doRequest\<close>, and which ready case a \<open>select\<close>
  takes) is given to the model as a script; what it does to the outside (calls, sends on
  channels, log lines, closes) is returned as a list of events in program order. The
  channels the worker receives from, and the flag it shares with \<open>submitRequest\<close>,
  are fields of the connection state.
\<close>

subsection \<open>Data\<close>

text \<open>A non-nil Go \<open>error\<close> is represented by its message; \<open>nil\<close> is \<open>None\<close>.\<close>

type_synonym error = string

definition io_EOF :: error where
  "io_EOF = ''EOF''"

definition io_ErrUnexpectedEOF :: error where
  "io_ErrUnexpectedEOF = ''unexpected EOF''"

text \<open>\<open>*request\<close>: an opaque payload.\<close>

datatype request = Request string

text \<open>
  \<open>*http.Response\<close>: the worker only reads \<open>resp.Header.Get(X_ENPROXY_PROXY_HOST)\<close>
  (the first component) and closes \<open>resp.Body\<close> (the second component names the body).
\<close>

datatype response = Response (header_X_ENPROXY_PROXY_HOST: string) (Body: string)

text \<open>\<open>hostWithResponse{proxyHost, resp, err}\<close>, fields in the order of the literal.\<close>

datatype hostWithResponse = HostWithResponse string "response option" "error option"

datatype op = OP_WRITE

text \<open>A \<open>net.Conn\<close> and a \<open>*bufio.Reader\<close> are known by a number; \<open>nil\<close> is \<open>None\<close>.\<close>

type_synonym proxy_conn = "nat option"
type_synonym buf_reader = "nat option"

datatype event =
    Log string
  | DialProxy
  | RedialProxyIfNecessary proxy_conn buf_reader
  | DoRequest proxy_conn buf_reader string op request
  | RecvRequestOut request
  | RecvStopRequest
  | TimeAfter int
  | SendRequestFinished "error option"
  | SendInitialResponse hostWithResponse
  | SendRequestOut request
  | BodyClose response
  | ProxyConnClose nat
  | Lock
  | Unlock
  | RLock
  | RUnlock
  | SetDoneRequesting
  | CloseRequestOutCh

text \<open>
  The part of \<open>Conn\<close> the three functions use. \<open>requestOutCh\<close> holds the items
  waiting to be received, oldest first; \<open>stopRequestCh\<close> counts the stop signals
  waiting to be received.
\<close>

record Conn =
  Addr :: string
  IdleTimeout :: int
  requestOutCh :: "request list"
  requestOutCh_closed :: bool
  stopRequestCh :: nat
  doneRequesting :: bool

text \<open>A Go function returns or panics.\<close>

datatype 'a outcome = Return 'a | Panic string

fun recover :: "'a outcome \<Rightarrow> string option" where
  "recover (Return _) = None"
| "recover (Panic v) = Some v"

definition nil_dereference :: string where
  "nil_dereference = ''runtime error: invalid memory address or nil pointer dereference''"

subsection \<open>submitRequest\<close>

text \<open>
  The send appends to the channel; a send on a closed channel panics. The deferred
  \<open>RUnlock\<close> runs on every path.
\<close>

definition submitRequest :: "request \<Rightarrow> Conn \<Rightarrow> event list \<times> bool outcome \<times> Conn" where
  "submitRequest request c =
     (if doneRequesting c then ([RLock, RUnlock], Return False, c)
      else if requestOutCh_closed c
        then ([RLock, RUnlock], Panic ''send on closed channel'', c)
      else ([RLock, SendRequestOut request, RUnlock], Return True,
            c\<lparr>requestOutCh := requestOutCh c @ [request]\<rparr>))"

subsection \<open>cleanupAfterRequests\<close>

text \<open>
  \<open>panicked\<close> is what \<open>recover()\<close> returns. When an item and a stop signal are both
  ready, \<open>select\<close> takes either; the schedule \<open>sched\<close> decides (\<open>True\<close>: the item),
  and the item once the schedule is used up. A receive from a closed channel is always
  ready, so on a closed \<open>requestOutCh\<close> the \<open>default\<close> case is never taken and the
  loop does not return: \<open>None\<close>.
\<close>

fun takes_request :: "bool list \<Rightarrow> bool" where
  "takes_request [] = True"
| "takes_request (b # _) = b"

function cleanupAfterRequests ::
  "response option \<Rightarrow> string option \<Rightarrow> bool list \<Rightarrow> Conn \<Rightarrow> (event list \<times> Conn) option" where
  "cleanupAfterRequests resp panicked sched c =
     (if requestOutCh_closed c then None
      else if requestOutCh c \<noteq> [] \<and> (stopRequestCh c = 0 \<or> takes_request sched) then
        (case cleanupAfterRequests resp panicked (tl sched)
                (c\<lparr>requestOutCh := tl (requestOutCh c)\<rparr>) of
           None \<Rightarrow> None
         | Some (evs, c') \<Rightarrow>
             Some (RecvRequestOut (hd (requestOutCh c))
                   # SendRequestFinished
                       (Some (if panicked \<noteq> None then io_ErrUnexpectedEOF else io_EOF))
                   # evs, c'))
      else if stopRequestCh c \<noteq> 0 then
        (case cleanupAfterRequests resp panicked (tl sched)
                (c\<lparr>stopRequestCh := stopRequestCh c - 1\<rparr>) of
           None \<Rightarrow> None
         | Some (evs, c') \<Rightarrow> Some (RecvStopRequest # evs, c'))
      else
        Some ([Lock, SetDoneRequesting, Unlock, CloseRequestOutCh]
              @ (case resp of Some r \<Rightarrow> [BodyClose r] | None \<Rightarrow> []),
              c\<lparr>doneRequesting := True, requestOutCh_closed := True\<rparr>))"
  by pat_completeness auto
termination
  by (relation "measure (\<lambda>(resp, panicked, sched, c). length (requestOutCh c) + stopRequestCh c)")
     auto

declare cleanupAfterRequests.simps [simp del]

subsection \<open>processRequests\<close>

text \<open>The local variables of \<open>processRequests\<close> that live across loop iterations.\<close>

record locals =
  proxyConn :: proxy_conn
  bufReader :: buf_reader
  proxyHost :: string
  first :: bool
  resp :: "response option"

text \<open>
  One entry of the script per loop iteration: \<open>IsClosed\<close> when \<open>c.isClosed()\<close> is true;
  otherwise the case the \<open>select\<close> takes. \<open>OnRequest\<close> carries what
  \<open>redialProxyIfNecessary\<close> returns (connection, reader, error) and what \<open>doRequest\<close>
  returns (response, error); \<open>OnTimer\<close> carries what \<open>c.isIdle()\<close> returns.
\<close>

type_synonym dial_result = "proxy_conn \<times> buf_reader \<times> error option"
type_synonym exchange_result = "response option \<times> error option"

datatype iteration =
    IsClosed
  | OnRequest dial_result exchange_result
  | OnStop
  | OnTimer bool

definition mkerror :: "Conn \<Rightarrow> string \<Rightarrow> string \<Rightarrow> error \<Rightarrow> error" where
  "mkerror c host text err =
     ''Dest: '' @ Addr c @ ''    ProxyHost: '' @ host @ ''    '' @ text @ '': '' @ err"

datatype flow = Continue | Exit "unit outcome"

text \<open>
  The body of the \<open>for\<close> loop. \<open>None\<close>: the case the script names is not ready (no item,
  no stop signal), so this is not a run of the program. Only the cleanup closes
  \<open>requestOutCh\<close>, after the loop; a receive of the loop from a closed and empty
  channel is not a run either.
\<close>

fun loopBody :: "locals \<Rightarrow> iteration \<Rightarrow> Conn \<Rightarrow> (event list \<times> flow \<times> locals \<times> Conn) option" where
  "loopBody v IsClosed c = Some ([], Exit (Return ()), v, c)"
| "loopBody v (OnRequest (proxyConn', bufReader', rerr) (resp', err)) c =
     (case requestOutCh c of
        [] \<Rightarrow> None
      | request # q \<Rightarrow>
          (let c1 = c\<lparr>requestOutCh := q\<rparr>;
               v1 = v\<lparr>proxyConn := proxyConn', bufReader := bufReader'\<rparr>;
               evs1 = [RecvRequestOut request,
                       RedialProxyIfNecessary (proxyConn v) (bufReader v)]
           in (case rerr of
                 Some e \<Rightarrow>
                   (let e' = mkerror c (proxyHost v) ''Unable to redial proxy'' e
                    in Some (evs1 @ [Log e']
                             @ (if first v
                                then [SendInitialResponse (HostWithResponse '''' None (Some e'))]
                                else []),
                             Exit (Return ()), v1, c1))
               | None \<Rightarrow>
                   (let v2 = v1\<lparr>resp := resp'\<rparr>;
                        evs2 = evs1 @ [DoRequest proxyConn' bufReader' (proxyHost v) OP_WRITE request,
                                       SendRequestFinished err]
                    in (case err of
                          Some e \<Rightarrow>
                            (let e' = mkerror c (proxyHost v) ''Unable to issue write request'' e
                             in Some (evs2 @ [Log e']
                                      @ (if first v
                                         then [SendInitialResponse
                                                 (HostWithResponse '''' None (Some e'))]
                                         else []),
                                      Exit (Return ()), v2, c1))
                        | None \<Rightarrow>
                            (case resp' of
                               None \<Rightarrow> Some (evs2, Exit (Panic nil_dereference), v2, c1)
                             | Some r \<Rightarrow>
                                 (if first v then
                                    (let host = header_X_ENPROXY_PROXY_HOST r
                                     in Some (evs2 @ [SendInitialResponse
                                                        (HostWithResponse host (Some r) None)],
                                              Continue,
                                              v2\<lparr>proxyHost := host, first := False\<rparr>, c1))
                                  else Some (evs2 @ [BodyClose r], Continue, v2, c1))))))))"
| "loopBody v OnStop c =
     (if stopRequestCh c = 0 then None
      else Some ([RecvStopRequest], Exit (Return ()), v,
                 c\<lparr>stopRequestCh := stopRequestCh c - 1\<rparr>))"
| "loopBody v (OnTimer idle) c =
     Some ([TimeAfter (IdleTimeout c)], if idle then Exit (Return ()) else Continue, v, c)"

text \<open>
  The \<open>for\<close> loop. \<open>None\<close> when the script ends before the loop is left: the worker is
  still waiting in its \<open>select\<close>.
\<close>

fun requestLoop ::
  "locals \<Rightarrow> iteration list \<Rightarrow> Conn \<Rightarrow> (event list \<times> unit outcome \<times> locals \<times> Conn) option" where
  "requestLoop v [] c = None"
| "requestLoop v (it # script) c =
     (case loopBody v it c of
        None \<Rightarrow> None
      | Some (evs, Exit x, v', c') \<Rightarrow> Some (evs, x, v', c')
      | Some (evs, Continue, v', c') \<Rightarrow>
          (case requestLoop v' script c' of
             None \<Rightarrow> None
           | Some (evs', x, v'', c'') \<Rightarrow> Some (evs @ evs', x, v'', c'')))"

text \<open>
  The same loop, observed while it runs: what it has done and the state it is in when
  the script ends, whether it has left the loop by then or still waits in its
  \<open>select\<close>. It stops where \<open>requestLoop\<close> stops, and also at an entry whose case is
  not ready.
\<close>

fun requestLoop_progress ::
  "locals \<Rightarrow> iteration list \<Rightarrow> Conn \<Rightarrow> event list \<times> locals \<times> Conn" where
  "requestLoop_progress v [] c = ([], v, c)"
| "requestLoop_progress v (it # script) c =
     (case loopBody v it c of
        None \<Rightarrow> ([], v, c)
      | Some (evs, Exit x, v', c') \<Rightarrow> (evs, v', c')
      | Some (evs, Continue, v', c') \<Rightarrow>
          (case requestLoop_progress v' script c' of
             (evs', v'', c'') \<Rightarrow> (evs @ evs', v'', c'')))"

text \<open>
  Everything \<open>processRequests\<close> runs before the deferred \<open>cleanupAfterRequests\<close>: the
  first dial, the loop, and the deferred closing of \<open>proxyConn\<close>, which is registered
  only after the dial succeeded and runs first (deferred calls run last in, first out).
\<close>

definition processRequests_body ::
  "dial_result \<Rightarrow> iteration list \<Rightarrow> Conn \<Rightarrow> (event list \<times> unit outcome \<times> locals \<times> Conn) option" where
  "processRequests_body dial script c =
     (case dial of (proxyConn0, bufReader0, err) \<Rightarrow>
        (let v0 = \<lparr>proxyConn = proxyConn0, bufReader = bufReader0, proxyHost = '''',
                   first = True, resp = None\<rparr>
         in (case err of
               Some e \<Rightarrow>
                 Some ([DialProxy, Log (''Unable to dial proxy for POSTing request: '' @ e)],
                       Return (), v0, c)
             | None \<Rightarrow>
                 (case requestLoop v0 script c of
                    None \<Rightarrow> None
                  | Some (evs, x, v, c') \<Rightarrow>
                      Some (DialProxy # evs
                            @ (case proxyConn v of Some n \<Rightarrow> [ProxyConnClose n] | None \<Rightarrow> []),
                            x, v, c')))))"

text \<open>
  \<open>defer c.cleanupAfterRequests(resp)\<close> is the first statement after
  \<open>var resp *http.Response\<close>. Go evaluates the arguments of a deferred call when the
  \<open>defer\<close> statement runs, so the call receives the value \<open>resp\<close> has there, \<open>nil\<close>,
  whatever the loop assigns to \<open>resp\<close> later.
\<close>

definition processRequests ::
  "dial_result \<Rightarrow> iteration list \<Rightarrow> bool list \<Rightarrow> Conn \<Rightarrow> (event list \<times> Conn) option" where
  "processRequests dial script sched c =
     (let resp_at_defer = None
      in (case processRequests_body dial script c of
            None \<Rightarrow> None
          | Some (evs, x, v, c1) \<Rightarrow>
              (case cleanupAfterRequests resp_at_defer (recover x) sched c1 of
                 None \<Rightarrow> None
               | Some (evs', c') \<Rightarrow> Some (evs @ evs', c'))))"

subsection \<open>Reading a trace\<close>

fun exchanged :: "event list \<Rightarrow> request list" where
  "exchanged [] = []"
| "exchanged (DoRequest pc br host oper r # evs) = r # exchanged evs"
| "exchanged (_ # evs) = exchanged evs"

fun pins :: "event list \<Rightarrow> string list" where
  "pins [] = []"
| "pins (DoRequest pc br host oper r # evs) = host # pins evs"
| "pins (_ # evs) = pins evs"

fun received :: "event list \<Rightarrow> request list" where
  "received [] = []"
| "received (RecvRequestOut r # evs) = r # received evs"
| "received (_ # evs) = received evs"

fun acks :: "event list \<Rightarrow> error option list" where
  "acks [] = []"
| "acks (SendRequestFinished e # evs) = e # acks evs"
| "acks (_ # evs) = acks evs"

fun initial_responses :: "event list \<Rightarrow> hostWithResponse list" where
  "initial_responses [] = []"
| "initial_responses (SendInitialResponse h # evs) = h # initial_responses evs"
| "initial_responses (_ # evs) = initial_responses evs"

text \<open>
  Every call of \<open>doRequest\<close> is directly followed by the send of its result on
  \<open>requestFinishedCh\<close>: nothing, and so no other exchange, comes between.
\<close>

fun is_DoRequest :: "event \<Rightarrow> bool" where
  "is_DoRequest (DoRequest pc br host oper r) = True"
| "is_DoRequest _ = False"

fun is_SendRequestFinished :: "event \<Rightarrow> bool" where
  "is_SendRequestFinished (SendRequestFinished e) = True"
| "is_SendRequestFinished _ = False"

fun one_in_flight :: "event list \<Rightarrow> bool" where
  "one_in_flight [] = True"
| "one_in_flight (e # evs) =
     ((if is_DoRequest e
       then (case evs of [] \<Rightarrow> False | e' # _ \<Rightarrow> is_SendRequestFinished e')
       else True)
      \<and> one_in_flight evs)"

text \<open>
  Every call of \<open>doRequest\<close> comes directly after a call of
  \<open>redialProxyIfNecessary\<close>; the flag says whether the event before the list was one.
\<close>

fun is_RedialProxyIfNecessary :: "event \<Rightarrow> bool" where
  "is_RedialProxyIfNecessary (RedialProxyIfNecessary pc br) = True"
| "is_RedialProxyIfNecessary _ = False"

fun redial_precedes :: "bool \<Rightarrow> event list \<Rightarrow> bool" where
  "redial_precedes b [] = True"
| "redial_precedes b (e # evs) =
     ((if is_DoRequest e then b else True)
      \<and> redial_precedes (is_RedialProxyIfNecessary e) evs)"

subsection \<open>Functions of the package defined in other files\<close>

text \<open>
  Modelled from the spec: \<open>redialProxyIfNecessary\<close> is called by \<open>processRequests\<close>
  and defined in another file of the package. Section 4.3 of the
  specification: before an exchange the worker checks whether the previously used relay
  connection is still usable; if it is, the connection and its reader are kept; if not,
  the transport dialer is invoked again for a fresh connection and a fresh framing
  reader. \<open>usable\<close> is the outcome of the check, \<open>dialed\<close> what the dialer returns.
\<close>

definition redialProxyIfNecessary ::
  "bool \<Rightarrow> dial_result \<Rightarrow> proxy_conn \<Rightarrow> buf_reader \<Rightarrow> dial_result" where
  "redialProxyIfNecessary usable dialed pc br = (if usable then (pc, br, None) else dialed)"

text \<open>
  Modelled from the spec: the entry point \<open>Dial\<close> is defined in another file of the
  package. Sections 4.1 and 6 of the specification: the outcome of the
  first exchange, the pin and the response or the error, is delivered through the
  initial-response handoff so that the caller of \<open>Dial\<close> observes it synchronously, and
  \<open>Dial\<close> returns a duplex stream or an error. The argument is what has been sent on
  \<open>initialResponseCh\<close>; the result is the error, or the pin of the stream, or \<open>None\<close>
  when nothing has been handed over and \<open>Dial\<close> has nothing to return.
\<close>

fun Dial :: "hostWithResponse list \<Rightarrow> (error + string) option" where
  "Dial [] = None"
| "Dial (HostWithResponse host rp (Some e) # _) = Some (Inl e)"
| "Dial (HostWithResponse host rp None # _) = Some (Inr host)"

subsection \<open>Example inputs\<close>

definition conn0 :: "request list \<Rightarrow> nat \<Rightarrow> Conn" where
  "conn0 q n = \<lparr>Addr = ''example.com:80'', IdleTimeout = 30, requestOutCh = q,
                requestOutCh_closed = False, stopRequestCh = n, doneRequesting = False\<rparr>"

definition dialed1 :: dial_result where
  "dialed1 = (Some 1, Some 1, None)"

definition resp1 :: response where
  "resp1 = Response ''relay-7'' ''body1''"

definition resp2 :: response where
  "resp2 = Response ''relay-9'' ''body2''"

section \<open>Properties\<close>

subsection \<open>Reading a trace in pieces\<close>

lemma exchanged_append [simp]: "exchanged (xs @ ys) = exchanged xs @ exchanged ys"
  by (induction xs rule: exchanged.induct) simp_all

lemma pins_append [simp]: "pins (xs @ ys) = pins xs @ pins ys"
  by (induction xs rule: pins.induct) simp_all

lemma received_append [simp]: "received (xs @ ys) = received xs @ received ys"
  by (induction xs rule: received.induct) simp_all

lemma acks_append [simp]: "acks (xs @ ys) = acks xs @ acks ys"
  by (induction xs rule: acks.induct) simp_all

lemma initial_responses_append [simp]:
  "initial_responses (xs @ ys) = initial_responses xs @ initial_responses ys"
  by (induction xs rule: initial_responses.induct) simp_all

lemma one_in_flight_append:
  "one_in_flight xs \<Longrightarrow> one_in_flight ys \<Longrightarrow> one_in_flight (xs @ ys)"
  by (induction xs) (auto split: list.splits)

lemma length_pins: "length (pins evs) = length (exchanged evs)"
  by (induction evs rule: exchanged.induct) simp_all

lemmas run_defs =
  processRequests_def processRequests_body_def conn0_def dialed1_def resp1_def resp2_def
  cleanupAfterRequests.simps io_EOF_def io_ErrUnexpectedEOF_def mkerror_def Let_def
  nil_dereference_def

lemma one_in_flight_nth:
  "one_in_flight evs \<Longrightarrow> Suc i < length evs \<Longrightarrow> is_DoRequest (evs ! i) \<Longrightarrow>
     is_SendRequestFinished (evs ! Suc i)"
proof (induction evs arbitrary: i)
  case Nil
  then show ?case by simp
next
  case (Cons e evs)
  show ?case
  proof (cases i)
    case 0
    with Cons.prems show ?thesis
      by (cases evs) auto
  next
    case (Suc j)
    with Cons.prems Cons.IH [of j] show ?thesis
      by auto
  qed
qed

subsection \<open>The cleanup\<close>

lemma cleanup_returns:
  "\<not> requestOutCh_closed c \<Longrightarrow>
     \<exists>evs c'. cleanupAfterRequests rp panicked sched c = Some (evs, c')"
proof (induction rp panicked sched c rule: cleanupAfterRequests.induct)
  case (1 rp panicked sched c)
  note opn = "1.prems"
  show ?case
  proof (cases "requestOutCh c \<noteq> [] \<and> (stopRequestCh c = 0 \<or> takes_request sched)")
    case True
    from "1.IH"(1) [OF opn True] opn
    obtain evs c' where
      "cleanupAfterRequests rp panicked (tl sched) (c\<lparr>requestOutCh := tl (requestOutCh c)\<rparr>)
         = Some (evs, c')"
      by auto
    with True opn show ?thesis
      by (subst cleanupAfterRequests.simps) simp
  next
    case False
    show ?thesis
    proof (cases "stopRequestCh c \<noteq> 0")
      case True
      from "1.IH"(2) [OF opn False True] opn
      obtain evs c' where
        "cleanupAfterRequests rp panicked (tl sched) (c\<lparr>stopRequestCh := stopRequestCh c - 1\<rparr>)
           = Some (evs, c')"
        by auto
      with True False opn show ?thesis
        by (subst cleanupAfterRequests.simps) auto
    next
      case stop: False
      with False opn show ?thesis
        by (subst cleanupAfterRequests.simps) auto
    qed
  qed
qed

lemma cleanup_state:
  "cleanupAfterRequests rp panicked sched c = Some (evs, c') \<Longrightarrow>
     c' = c\<lparr>requestOutCh := [], stopRequestCh := 0, doneRequesting := True,
            requestOutCh_closed := True\<rparr>"
proof (induction rp panicked sched c arbitrary: evs c' rule: cleanupAfterRequests.induct)
  case (1 rp panicked sched c)
  note eq = "1.prems" [unfolded cleanupAfterRequests.simps [of rp panicked sched c]]
  show ?case
    using "1.IH" eq
    by (auto split: option.splits if_splits)
qed

lemma cleanup_received:
  "cleanupAfterRequests rp panicked sched c = Some (evs, c') \<Longrightarrow> received evs = requestOutCh c"
proof (induction rp panicked sched c arbitrary: evs c' rule: cleanupAfterRequests.induct)
  case (1 rp panicked sched c)
  note eq = "1.prems" [unfolded cleanupAfterRequests.simps [of rp panicked sched c]]
  show ?case
    using "1.IH" eq
    by (auto split: option.splits if_splits)
qed

lemma cleanup_acks:
  "cleanupAfterRequests rp panicked sched c = Some (evs, c') \<Longrightarrow>
     acks evs = replicate (length (requestOutCh c))
                  (Some (if panicked \<noteq> None then io_ErrUnexpectedEOF else io_EOF))"
proof (induction rp panicked sched c arbitrary: evs c' rule: cleanupAfterRequests.induct)
  case (1 rp panicked sched c)
  note eq = "1.prems" [unfolded cleanupAfterRequests.simps [of rp panicked sched c]]
  show ?case
    using "1.IH" eq
    by (auto split: option.splits if_splits
             simp: Suc_diff_Suc replicate_Suc [symmetric] simp del: replicate_Suc)
qed

lemma cleanup_no_exchange:
  "cleanupAfterRequests rp panicked sched c = Some (evs, c') \<Longrightarrow>
     exchanged evs = [] \<and> pins evs = [] \<and> initial_responses evs = [] \<and> one_in_flight evs"
proof (induction rp panicked sched c arbitrary: evs c' rule: cleanupAfterRequests.induct)
  case (1 rp panicked sched c)
  note eq = "1.prems" [unfolded cleanupAfterRequests.simps [of rp panicked sched c]]
  show ?case
    using "1.IH" eq
    by (auto split: option.splits if_splits)
qed

lemma cleanup_shape:
  "cleanupAfterRequests None panicked sched c = Some (evs, c') \<Longrightarrow>
     \<exists>pre. evs = pre @ [Lock, SetDoneRequesting, Unlock, CloseRequestOutCh]
           \<and> SetDoneRequesting \<notin> set pre"
proof (induction "None :: response option" panicked sched c arbitrary: evs c'
       rule: cleanupAfterRequests.induct)
  case (1 panicked sched c)
  note eq = "1.prems" [unfolded cleanupAfterRequests.simps [of None panicked sched c]]
  show ?case
  proof (cases "requestOutCh c \<noteq> [] \<and> (stopRequestCh c = 0 \<or> takes_request sched)")
    case True
    with eq obtain evs1 where
      rec: "cleanupAfterRequests None panicked (tl sched)
              (c\<lparr>requestOutCh := tl (requestOutCh c)\<rparr>) = Some (evs1, c')"
      and evs: "evs = RecvRequestOut (hd (requestOutCh c))
                 # SendRequestFinished
                     (Some (if panicked \<noteq> None then io_ErrUnexpectedEOF else io_EOF))
                 # evs1"
      by (auto split: option.splits if_splits)
    from eq have opn: "\<not> requestOutCh_closed c"
      by (auto split: if_splits)
    from "1.hyps"(1) [OF opn True rec] obtain pre where
      "evs1 = pre @ [Lock, SetDoneRequesting, Unlock, CloseRequestOutCh]"
      "SetDoneRequesting \<notin> set pre"
      by auto
    with evs have
      "evs = (RecvRequestOut (hd (requestOutCh c))
                 # SendRequestFinished
                     (Some (if panicked \<noteq> None then io_ErrUnexpectedEOF else io_EOF))
                 # pre) @ [Lock, SetDoneRequesting, Unlock, CloseRequestOutCh]
       \<and> SetDoneRequesting \<notin> set (RecvRequestOut (hd (requestOutCh c))
                 # SendRequestFinished
                     (Some (if panicked \<noteq> None then io_ErrUnexpectedEOF else io_EOF))
                 # pre)"
      by simp
    then show ?thesis by blast
  next
    case False
    show ?thesis
    proof (cases "stopRequestCh c \<noteq> 0")
      case True
      with False eq obtain evs1 where
        rec: "cleanupAfterRequests None panicked (tl sched)
                (c\<lparr>stopRequestCh := stopRequestCh c - 1\<rparr>) = Some (evs1, c')"
        and evs: "evs = RecvStopRequest # evs1"
        by (auto split: option.splits if_splits)
      from eq have opn: "\<not> requestOutCh_closed c"
        by (auto split: if_splits)
      from "1.hyps"(2) [OF opn False True rec] obtain pre where
        "evs1 = pre @ [Lock, SetDoneRequesting, Unlock, CloseRequestOutCh]"
        "SetDoneRequesting \<notin> set pre"
        by auto
      with evs have
        "evs = (RecvStopRequest # pre) @ [Lock, SetDoneRequesting, Unlock, CloseRequestOutCh]
         \<and> SetDoneRequesting \<notin> set (RecvStopRequest # pre)"
        by simp
      then show ?thesis by blast
    next
      case stop: False
      with False eq have "evs = [] @ [Lock, SetDoneRequesting, Unlock, CloseRequestOutCh]
                          \<and> SetDoneRequesting \<notin> set []"
        by (auto split: if_splits)
      then show ?thesis by blast
    qed
  qed
qed

subsection \<open>The loop\<close>

lemma loopBody_trace:
  assumes "loopBody v it c = Some (evs, f, v', c')"
  shows "one_in_flight evs"
    and "received evs @ requestOutCh c' = requestOutCh c"
    and "prefix (exchanged evs) (received evs)"
    and "f = Continue \<Longrightarrow> exchanged evs = received evs"
    and "requestOutCh_closed c' = requestOutCh_closed c"
  using assms
  by (cases "(v, it, c)" rule: loopBody.cases;
      auto simp: Let_def split: list.splits option.splits if_splits)+

lemma requestLoop_trace:
  "requestLoop v script c = Some (evs, x, v', c') \<Longrightarrow>
     one_in_flight evs \<and> received evs @ requestOutCh c' = requestOutCh c
     \<and> prefix (exchanged evs) (received evs)
     \<and> requestOutCh_closed c' = requestOutCh_closed c"
proof (induction script arbitrary: v c evs)
  case Nil
  then show ?case by simp
next
  case (Cons it script)
  from Cons.prems obtain evs1 f v1 c1 where
    body: "loopBody v it c = Some (evs1, f, v1, c1)"
    by (auto split: option.splits)
  note facts = loopBody_trace [OF body]
  show ?case
  proof (cases f)
    case (Exit y)
    with Cons.prems body facts show ?thesis by auto
  next
    case Continue
    with Cons.prems body obtain evs2 where
      rest: "requestLoop v1 script c1 = Some (evs2, x, v', c')" and evs: "evs = evs1 @ evs2"
      by (auto split: option.splits)
    from Cons.IH [OF rest] facts Continue evs show ?thesis
      by (auto simp: one_in_flight_append)
  qed
qed

lemma processRequests_body_trace:
  assumes "processRequests_body dial script c = Some (evs, x, v, c1)"
  shows "one_in_flight evs \<and> received evs @ requestOutCh c1 = requestOutCh c
         \<and> prefix (exchanged evs) (received evs)
         \<and> requestOutCh_closed c1 = requestOutCh_closed c"
proof -
  obtain pc br err where dial: "dial = (pc, br, err)"
    by (cases dial) auto
  show ?thesis
  proof (cases err)
    case (Some e)
    with assms dial show ?thesis
      by (auto simp: processRequests_body_def)
  next
    case None
    with assms dial obtain levs where
      loop: "requestLoop \<lparr>proxyConn = pc, bufReader = br, proxyHost = '''', first = True,
                          resp = None\<rparr> script c = Some (levs, x, v, c1)"
      and evs: "evs = DialProxy # levs
                  @ (case proxyConn v of Some n \<Rightarrow> [ProxyConnClose n] | None \<Rightarrow> [])"
      by (auto simp: processRequests_body_def split: option.splits)
    from requestLoop_trace [OF loop] evs show ?thesis
      by (auto simp: one_in_flight_append split: option.splits)
  qed
qed

lemma loopBody_no_SetDoneRequesting:
  "loopBody v it c = Some (evs, f, v', c') \<Longrightarrow> SetDoneRequesting \<notin> set evs"
  by (cases "(v, it, c)" rule: loopBody.cases;
      auto simp: Let_def split: list.splits option.splits if_splits)

lemma requestLoop_no_SetDoneRequesting:
  "requestLoop v script c = Some (evs, x, v', c') \<Longrightarrow> SetDoneRequesting \<notin> set evs"
proof (induction script arbitrary: v c evs)
  case Nil
  then show ?case by simp
next
  case (Cons it script)
  from Cons.prems obtain evs1 f v1 c1 where
    body: "loopBody v it c = Some (evs1, f, v1, c1)"
    by (auto split: option.splits)
  note fact = loopBody_no_SetDoneRequesting [OF body]
  show ?case
  proof (cases f)
    case (Exit y)
    with Cons.prems body fact show ?thesis by auto
  next
    case Continue
    with Cons.prems body obtain evs2 where
      rest: "requestLoop v1 script c1 = Some (evs2, x, v', c')" and evs: "evs = evs1 @ evs2"
      by (auto split: option.splits)
    from Cons.IH [OF rest] fact evs show ?thesis
      by auto
  qed
qed

lemma processRequests_body_no_SetDoneRequesting:
  assumes "processRequests_body dial script c = Some (evs, x, v, c1)"
  shows "SetDoneRequesting \<notin> set evs"
proof -
  obtain pc br err where dial: "dial = (pc, br, err)"
    by (cases dial) auto
  show ?thesis
  proof (cases err)
    case (Some e)
    with assms dial show ?thesis
      by (auto simp: processRequests_body_def)
  next
    case None
    with assms dial obtain levs where
      loop: "requestLoop \<lparr>proxyConn = pc, bufReader = br, proxyHost = '''', first = True,
                          resp = None\<rparr> script c = Some (levs, x, v, c1)"
      and evs: "evs = DialProxy # levs
                  @ (case proxyConn v of Some n \<Rightarrow> [ProxyConnClose n] | None \<Rightarrow> [])"
      by (auto simp: processRequests_body_def split: option.splits)
    from requestLoop_no_SetDoneRequesting [OF loop] evs show ?thesis
      by (auto split: option.splits)
  qed
qed

lemma requestLoop_timers:
  "set pre \<subseteq> {OnTimer False} \<Longrightarrow>
     requestLoop v (pre @ script) c =
       (case requestLoop v script c of
          None \<Rightarrow> None
        | Some (evs, r) \<Rightarrow> Some (replicate (length pre) (TimeAfter (IdleTimeout c)) @ evs, r))"
  by (induction pre) (auto split: option.splits)

lemma loopBody_pinned:
  assumes "loopBody v it c = Some (evs, f, v', c')" and "\<not> first v"
  shows "initial_responses evs = []"
    and "pins evs = replicate (length (pins evs)) (proxyHost v)"
    and "proxyHost v' = proxyHost v"
    and "\<not> first v'"
  using assms
  by (cases "(v, it, c)" rule: loopBody.cases;
      auto simp: Let_def split: list.splits option.splits if_splits)+

lemma requestLoop_pinned:
  "requestLoop v script c = Some (evs, x, v', c') \<Longrightarrow> \<not> first v \<Longrightarrow>
     initial_responses evs = [] \<and> pins evs = replicate (length (pins evs)) (proxyHost v)
     \<and> proxyHost v' = proxyHost v"
proof (induction script arbitrary: v c evs)
  case Nil
  then show ?case by simp
next
  case (Cons it script)
  from Cons.prems obtain evs1 f v1 c1 where
    body: "loopBody v it c = Some (evs1, f, v1, c1)"
    by (auto split: option.splits)
  note facts = loopBody_pinned [OF body Cons.prems(2)]
  show ?case
  proof (cases f)
    case (Exit y)
    with Cons.prems body facts show ?thesis by auto
  next
    case Continue
    with Cons.prems body obtain evs2 where
      rest: "requestLoop v1 script c1 = Some (evs2, x, v', c')" and evs: "evs = evs1 @ evs2"
      by (auto split: option.splits)
    from Cons.IH [OF rest facts(4)] facts(3)
    have r: "initial_responses evs2 = []"
      "pins evs2 = replicate (length (pins evs2)) (proxyHost v)"
      "proxyHost v' = proxyHost v"
      by simp_all
    have "pins evs1 @ pins evs2
            = replicate (length (pins evs1) + length (pins evs2)) (proxyHost v)"
      by (subst facts(2), subst r(2)) (simp add: replicate_add)
    with facts r evs show ?thesis
      by simp
  qed
qed

lemma processRequests_split:
  assumes "processRequests dial script sched c = Some (evs, c')"
  obtains bevs x v c1 cevs where
    "processRequests_body dial script c = Some (bevs, x, v, c1)"
    "cleanupAfterRequests None (recover x) sched c1 = Some (cevs, c')"
    "evs = bevs @ cevs"
  using assms
  by (auto simp: processRequests_def split: option.splits)

lemma processRequests_one_in_flight:
  assumes "processRequests dial script sched c = Some (evs, c')"
  shows "one_in_flight evs"
proof -
  from assms obtain bevs x v c1 cevs where
    body: "processRequests_body dial script c = Some (bevs, x, v, c1)" and
    cleanup: "cleanupAfterRequests None (recover x) sched c1 = Some (cevs, c')" and
    evs: "evs = bevs @ cevs"
    by (rule processRequests_split)
  from processRequests_body_trace [OF body] cleanup_no_exchange [OF cleanup] evs
  show ?thesis
    by (simp add: one_in_flight_append)
qed

lemma redial_precedes_append:
  "redial_precedes b xs \<Longrightarrow> (\<And>b'. redial_precedes b' ys) \<Longrightarrow> redial_precedes b (xs @ ys)"
  by (induction xs arbitrary: b) auto

lemma cleanup_redial_precedes:
  "cleanupAfterRequests rp panicked sched c = Some (evs, c') \<Longrightarrow> redial_precedes b evs"
proof (induction rp panicked sched c arbitrary: evs c' b rule: cleanupAfterRequests.induct)
  case (1 rp panicked sched c)
  note eq = "1.prems" [unfolded cleanupAfterRequests.simps [of rp panicked sched c]]
  show ?case
    using "1.IH" eq
    by (auto split: option.splits if_splits)
qed

lemma loopBody_redial_precedes:
  "loopBody v it c = Some (evs, f, v', c') \<Longrightarrow> redial_precedes b evs"
  by (cases "(v, it, c)" rule: loopBody.cases;
      auto simp: Let_def split: list.splits option.splits if_splits)

lemma requestLoop_redial_precedes:
  "requestLoop v script c = Some (evs, x, v', c') \<Longrightarrow> redial_precedes b evs"
proof (induction script arbitrary: v c evs b)
  case Nil
  then show ?case by simp
next
  case (Cons it script)
  from Cons.prems obtain evs1 f v1 c1 where
    body: "loopBody v it c = Some (evs1, f, v1, c1)"
    by (auto split: option.splits)
  note fact = loopBody_redial_precedes [OF body]
  show ?case
  proof (cases f)
    case (Exit y)
    with Cons.prems body fact show ?thesis by auto
  next
    case Continue
    with Cons.prems body obtain evs2 where
      rest: "requestLoop v1 script c1 = Some (evs2, x, v', c')" and evs: "evs = evs1 @ evs2"
      by (auto split: option.splits)
    from Cons.IH [OF rest] fact evs show ?thesis
      by (simp add: redial_precedes_append)
  qed
qed

lemma processRequests_redial_precedes:
  assumes "processRequests dial script sched c = Some (evs, c')"
  shows "redial_precedes False evs"
proof -
  from assms obtain bevs x v c1 cevs where
    body: "processRequests_body dial script c = Some (bevs, x, v, c1)" and
    cleanup: "cleanupAfterRequests None (recover x) sched c1 = Some (cevs, c')" and
    evs: "evs = bevs @ cevs"
    by (rule processRequests_split)
  obtain pc br err where dial: "dial = (pc, br, err)"
    by (cases dial) auto
  have "redial_precedes False bevs"
  proof (cases err)
    case (Some e)
    with body dial show ?thesis
      by (auto simp: processRequests_body_def)
  next
    case None
    with body dial obtain levs where
      loop: "requestLoop \<lparr>proxyConn = pc, bufReader = br, proxyHost = '''', first = True,
                          resp = None\<rparr> script c = Some (levs, x, v, c1)"
      and bevs: "bevs = DialProxy # levs
                  @ (case proxyConn v of Some n \<Rightarrow> [ProxyConnClose n] | None \<Rightarrow> [])"
      by (auto simp: processRequests_body_def split: option.splits)
    have "redial_precedes b (case proxyConn v of Some n \<Rightarrow> [ProxyConnClose n] | None \<Rightarrow> [])"
      for b
      by (simp split: option.splits)
    with requestLoop_redial_precedes [OF loop] bevs show ?thesis
      by (simp add: redial_precedes_append)
  qed
  with cleanup_redial_precedes [OF cleanup] evs show ?thesis
    by (simp add: redial_precedes_append)
qed

lemma requestLoop_progress_eq:
  "requestLoop v script c = Some (evs, x, v', c') \<Longrightarrow>
     requestLoop_progress v script c = (evs, v', c')"
proof (induction script arbitrary: v c evs)
  case Nil
  then show ?case by simp
next
  case (Cons it script)
  from Cons.prems obtain evs1 f v1 c1 where
    body: "loopBody v it c = Some (evs1, f, v1, c1)"
    by (auto split: option.splits)
  show ?case
  proof (cases f)
    case (Exit y)
    with Cons.prems body show ?thesis by auto
  next
    case Continue
    with Cons.prems body obtain evs2 where
      rest: "requestLoop v1 script c1 = Some (evs2, x, v', c')" and evs: "evs = evs1 @ evs2"
      by (auto split: option.splits)
    from Cons.IH [OF rest] body Continue evs show ?thesis
      by simp
  qed
qed

lemma requestLoop_progress_timers:
  "set pre \<subseteq> {OnTimer False} \<Longrightarrow>
     requestLoop_progress v (pre @ script) c =
       (case requestLoop_progress v script c of
          (evs, r) \<Rightarrow> (replicate (length pre) (TimeAfter (IdleTimeout c)) @ evs, r))"
  by (induction pre) (auto split: prod.splits)

lemma requestLoop_progress_pinned:
  "requestLoop_progress v script c = (evs, v', c') \<Longrightarrow> \<not> first v \<Longrightarrow>
     initial_responses evs = [] \<and> pins evs = replicate (length (pins evs)) (proxyHost v)
     \<and> proxyHost v' = proxyHost v"
proof (induction script arbitrary: v c evs)
  case Nil
  then show ?case by simp
next
  case (Cons it script)
  show ?case
  proof (cases "loopBody v it c")
    case None
    with Cons.prems show ?thesis by simp
  next
    case (Some res)
    then obtain evs1 f v1 c1 where
      body: "loopBody v it c = Some (evs1, f, v1, c1)"
      by (cases res) auto
    note facts = loopBody_pinned [OF body Cons.prems(2)]
    show ?thesis
    proof (cases f)
      case (Exit y)
      with Cons.prems body facts show ?thesis by auto
    next
      case Continue
      with Cons.prems body obtain evs2 where
        rest: "requestLoop_progress v1 script c1 = (evs2, v', c')" and evs: "evs = evs1 @ evs2"
        by (auto split: prod.splits)
      from Cons.IH [OF rest facts(4)] facts(3)
      have r: "initial_responses evs2 = []"
        "pins evs2 = replicate (length (pins evs2)) (proxyHost v)"
        "proxyHost v' = proxyHost v"
        by simp_all
      have "pins evs1 @ pins evs2
              = replicate (length (pins evs1) + length (pins evs2)) (proxyHost v)"
        by (subst facts(2), subst r(2)) (simp add: replicate_add)
      with facts r evs show ?thesis
        by simp
    qed
  qed
qed

lemma first_success_progress:
  assumes pre: "set pre \<subseteq> {OnTimer False}"
    and q: "requestOutCh c = request # q"
    and v: "first v"
    and prog: "requestLoop_progress v (pre @ OnRequest (pc, br, None) (Some r, None) # rest) c
                 = (evs, v', c')"
  shows "initial_responses evs = [HostWithResponse (header_X_ENPROXY_PROXY_HOST r) (Some r) None]
       \<and> pins evs = proxyHost v # replicate (length (exchanged evs) - 1)
                                     (header_X_ENPROXY_PROXY_HOST r)
       \<and> proxyHost v' = header_X_ENPROXY_PROXY_HOST r"
proof -
  let ?T = "replicate (length pre) (TimeAfter (IdleTimeout c))"
  let ?h = "header_X_ENPROXY_PROXY_HOST r"
  let ?v1 = "v\<lparr>proxyConn := pc, bufReader := br, resp := Some r, proxyHost := ?h,
                first := False\<rparr>"
  let ?E = "[RecvRequestOut request, RedialProxyIfNecessary (proxyConn v) (bufReader v),
             DoRequest pc br (proxyHost v) OP_WRITE request, SendRequestFinished None,
             SendInitialResponse (HostWithResponse ?h (Some r) None)]"
  have T: "initial_responses ?T = []" "pins ?T = []"
    by (induction pre) simp_all
  have step: "loopBody v (OnRequest (pc, br, None) (Some r, None)) c
                = Some (?E, Continue, ?v1, c\<lparr>requestOutCh := q\<rparr>)"
    using q v by (simp add: Let_def)
  obtain evs2 v2 c2 where
    rest: "requestLoop_progress ?v1 rest (c\<lparr>requestOutCh := q\<rparr>) = (evs2, v2, c2)"
    by (cases "requestLoop_progress ?v1 rest (c\<lparr>requestOutCh := q\<rparr>)") auto
  from prog step rest have evs: "evs = ?T @ ?E @ evs2" and v': "v' = v2"
    by (simp_all add: requestLoop_progress_timers [OF pre] del: loopBody.simps)
  from requestLoop_progress_pinned [OF rest]
  have p: "initial_responses evs2 = []" "pins evs2 = replicate (length (pins evs2)) ?h"
    "proxyHost v2 = ?h"
    by simp_all
  have ir: "initial_responses evs = [HostWithResponse ?h (Some r) None]"
    using evs T p by simp
  have pn: "pins evs = proxyHost v # pins evs2"
    using evs T by simp
  have "length (exchanged evs) - 1 = length (pins evs2)"
    using pn by (simp add: length_pins [symmetric])
  with pn p(2) have "pins evs = proxyHost v # replicate (length (exchanged evs) - 1) ?h"
    by simp
  with ir p(3) v' show ?thesis
    by simp
qed


lemma processRequests_pinned:
  assumes pre: "set pre \<subseteq> {OnTimer False}"
    and run: "processRequests (pc0, br0, None)
                (pre @ OnRequest (pc, br, None) (Some r, None) # rest) sched c = Some (evs, c')"
  shows "initial_responses evs = [HostWithResponse (header_X_ENPROXY_PROXY_HOST r) (Some r) None]
       \<and> pins evs = '''' # replicate (length (exchanged evs) - 1) (header_X_ENPROXY_PROXY_HOST r)
       \<and> (\<exists>bevs x v c1.
             processRequests_body (pc0, br0, None)
               (pre @ OnRequest (pc, br, None) (Some r, None) # rest) c = Some (bevs, x, v, c1)
             \<and> proxyHost v = header_X_ENPROXY_PROXY_HOST r)"
proof -
  let ?v0 = "\<lparr>proxyConn = pc0, bufReader = br0, proxyHost = '''', first = True, resp = None\<rparr>"
  let ?T = "replicate (length pre) (TimeAfter (IdleTimeout c))"
  let ?h = "header_X_ENPROXY_PROXY_HOST r"
  have T: "initial_responses ?T = []" "pins ?T = []"
    by (induction pre) simp_all
  from run obtain bevs x v c1 cevs where
    body: "processRequests_body (pc0, br0, None)
             (pre @ OnRequest (pc, br, None) (Some r, None) # rest) c = Some (bevs, x, v, c1)" and
    cleanup: "cleanupAfterRequests None (recover x) sched c1 = Some (cevs, c')" and
    evs: "evs = bevs @ cevs"
    by (rule processRequests_split)
  from cleanup_no_exchange [OF cleanup]
  have k: "pins cevs = []" "initial_responses cevs = []"
    by simp_all
  from body obtain levs where
    loop: "requestLoop ?v0 (OnRequest (pc, br, None) (Some r, None) # rest) c
             = Some (levs, x, v, c1)"
    and bevs: "bevs = DialProxy # ?T @ levs
                 @ (case proxyConn v of Some n \<Rightarrow> [ProxyConnClose n] | None \<Rightarrow> [])"
    by (auto simp: processRequests_body_def requestLoop_timers [OF pre]
             simp del: requestLoop.simps split: option.splits)
  from loop obtain request q where q: "requestOutCh c = request # q"
    by (cases "requestOutCh c") auto
  let ?v1 = "\<lparr>proxyConn = pc, bufReader = br, proxyHost = ?h, first = False, resp = Some r\<rparr>"
  from loop q obtain evs2 where
    rest: "requestLoop ?v1 rest (c\<lparr>requestOutCh := q\<rparr>) = Some (evs2, x, v, c1)" and
    levs: "levs = [RecvRequestOut request, RedialProxyIfNecessary pc0 br0,
                   DoRequest pc br '''' OP_WRITE request, SendRequestFinished None,
                   SendInitialResponse (HostWithResponse ?h (Some r) None)] @ evs2"
    by (auto simp: Let_def split: option.splits)
  from requestLoop_pinned [OF rest]
  have p: "initial_responses evs2 = []" "pins evs2 = replicate (length (pins evs2)) ?h"
    "proxyHost v = ?h"
    by simp_all
  have close: "pins (case proxyConn v of Some n \<Rightarrow> [ProxyConnClose n] | None \<Rightarrow> []) = []"
    "initial_responses (case proxyConn v of Some n \<Rightarrow> [ProxyConnClose n] | None \<Rightarrow> []) = []"
    by (simp_all split: option.splits)
  have ir: "initial_responses evs = [HostWithResponse ?h (Some r) None]"
    using evs bevs levs k T p close by simp
  have pn: "pins evs = '''' # pins evs2"
    using evs bevs levs k T close by simp
  have "length (exchanged evs) - 1 = length (pins evs2)"
    using pn by (simp add: length_pins [symmetric])
  with pn p(2) have "pins evs = '''' # replicate (length (exchanged evs) - 1) ?h"
    by simp
  with ir body p(3) show ?thesis
    by blast
qed


lemma cleanup_drains_pending:
  assumes body: "processRequests_body dial script c = Some (bevs, x, v, c1)"
    and opn: "\<not> requestOutCh_closed c"
  shows "\<exists>cevs c'.
           processRequests dial script sched c = Some (bevs @ cevs, c')
           \<and> cleanupAfterRequests None (recover x) sched c1 = Some (cevs, c')
           \<and> received cevs = requestOutCh c1
           \<and> acks cevs = replicate (length (requestOutCh c1))
                            (Some (case x of Return u \<Rightarrow> io_EOF
                                   | Panic p \<Rightarrow> io_ErrUnexpectedEOF))
           \<and> requestOutCh c' = []"
proof -
  from processRequests_body_trace [OF body] opn have "\<not> requestOutCh_closed c1"
    by simp
  from cleanup_returns [OF this] obtain cevs c' where
    cleanup: "cleanupAfterRequests None (recover x) sched c1 = Some (cevs, c')"
    by blast
  from body cleanup have run: "processRequests dial script sched c = Some (bevs @ cevs, c')"
    by (simp add: processRequests_def)
  from cleanup_state [OF cleanup] have empty: "requestOutCh c' = []"
    by simp
  from cleanup_acks [OF cleanup]
  have "acks cevs = replicate (length (requestOutCh c1))
                            (Some (case x of Return u \<Rightarrow> io_EOF
                                   | Panic p \<Rightarrow> io_ErrUnexpectedEOF))"
    by (cases x) simp_all
  with run cleanup cleanup_received [OF cleanup] empty show ?thesis
    by blast
qed

subsection \<open>Claims\<close>

text \<open>
  C1. In every run of the worker that terminates, each call of \<open>doRequest\<close> is directly
  followed by the delivery of its result on the acknowledgment channel, so a second
  exchange starts only after the first has returned and been acknowledged; and the
  requests exchanged are, in order, a prefix of the items that were waiting in the
  input channel.
\<close>

theorem processRequests_no_pipelining:
  assumes "processRequests dial script sched c = Some (evs, c')"
  shows "one_in_flight evs \<and> prefix (exchanged evs) (requestOutCh c)"
proof -
  from assms obtain bevs x v c1 cevs where
    body: "processRequests_body dial script c = Some (bevs, x, v, c1)" and
    cleanup: "cleanupAfterRequests None (recover x) sched c1 = Some (cevs, c')" and
    evs: "evs = bevs @ cevs"
    by (rule processRequests_split)
  from processRequests_body_trace [OF body]
  have b: "one_in_flight bevs" "received bevs @ requestOutCh c1 = requestOutCh c"
    "prefix (exchanged bevs) (received bevs)"
    by simp_all
  from cleanup_no_exchange [OF cleanup]
  have k: "exchanged cevs = []" "one_in_flight cevs"
    by simp_all
  from b(3) have "prefix (exchanged bevs) (received bevs @ requestOutCh c1)"
    by (rule prefix_prefix)
  with b k evs show ?thesis
    by (simp add: one_in_flight_append)
qed

theorem processRequests_no_pipelining_witness:
  "processRequests dialed1
     [OnRequest dialed1 (Some resp1, None), OnTimer False,
      OnRequest dialed1 (Some resp2, None), OnStop]
     [] (conn0 [Request ''a'', Request ''b'', Request ''c''] 1)
   = Some
      ([DialProxy, RecvRequestOut (Request ''a''),
        RedialProxyIfNecessary (Some 1) (Some 1),
        DoRequest (Some 1) (Some 1) [] OP_WRITE (Request ''a''),
        SendRequestFinished None,
        SendInitialResponse (HostWithResponse ''relay-7'' (Some resp1) None),
        TimeAfter 30, RecvRequestOut (Request ''b''),
        RedialProxyIfNecessary (Some 1) (Some 1),
        DoRequest (Some 1) (Some 1) ''relay-7'' OP_WRITE (Request ''b''),
        SendRequestFinished None, BodyClose resp2,
        RecvStopRequest, ProxyConnClose 1, RecvRequestOut (Request ''c''),
        SendRequestFinished (Some io_EOF), Lock, SetDoneRequesting, Unlock,
        CloseRequestOutCh],
       conn0 [] 0\<lparr>requestOutCh_closed := True, doneRequesting := True\<rparr>)
   \<and> one_in_flight
        [DialProxy, RecvRequestOut (Request ''a''),
         RedialProxyIfNecessary (Some 1) (Some 1),
         DoRequest (Some 1) (Some 1) [] OP_WRITE (Request ''a''),
         SendRequestFinished None,
         SendInitialResponse (HostWithResponse ''relay-7'' (Some resp1) None),
         TimeAfter 30, RecvRequestOut (Request ''b''),
         RedialProxyIfNecessary (Some 1) (Some 1),
         DoRequest (Some 1) (Some 1) ''relay-7'' OP_WRITE (Request ''b''),
         SendRequestFinished None, BodyClose resp2,
         RecvStopRequest, ProxyConnClose 1, RecvRequestOut (Request ''c''),
         SendRequestFinished (Some io_EOF), Lock, SetDoneRequesting, Unlock,
         CloseRequestOutCh]
   \<and> prefix [Request ''a'', Request ''b'']
        (requestOutCh (conn0 [Request ''a'', Request ''b'', Request ''c''] 1))"
proof -
  have run: "processRequests dialed1
     [OnRequest dialed1 (Some resp1, None), OnTimer False,
      OnRequest dialed1 (Some resp2, None), OnStop]
     [] (conn0 [Request ''a'', Request ''b'', Request ''c''] 1)
   = Some
      ([DialProxy, RecvRequestOut (Request ''a''),
        RedialProxyIfNecessary (Some 1) (Some 1),
        DoRequest (Some 1) (Some 1) [] OP_WRITE (Request ''a''),
        SendRequestFinished None,
        SendInitialResponse (HostWithResponse ''relay-7'' (Some resp1) None),
        TimeAfter 30, RecvRequestOut (Request ''b''),
        RedialProxyIfNecessary (Some 1) (Some 1),
        DoRequest (Some 1) (Some 1) ''relay-7'' OP_WRITE (Request ''b''),
        SendRequestFinished None, BodyClose resp2,
        RecvStopRequest, ProxyConnClose 1, RecvRequestOut (Request ''c''),
        SendRequestFinished (Some io_EOF), Lock, SetDoneRequesting, Unlock,
        CloseRequestOutCh],
       conn0 [] 0\<lparr>requestOutCh_closed := True, doneRequesting := True\<rparr>)"
    by (simp add: run_defs)
  from processRequests_no_pipelining [OF run] run show ?thesis
    by simp
qed

text \<open>
  C2. The cleanup does what the claim says for the items still waiting in the input
  channel (\<open>cleanup_drains_pending\<close> above). The claim fails on what it concludes from
  that, that no caller waits for an acknowledgment forever: an item the loop has
  received when \<open>redialProxyIfNecessary\<close> returns an error is no longer in the channel,
  the loop returns without acknowledging it, and the cleanup does not know of it. Here
  three items are waiting; the first is exchanged and acknowledged, the redial for the
  second fails, and the cleanup drains the third: three items are received and two
  acknowledgments are sent, the success of the first and the \<open>io.EOF\<close> of the third.
\<close>

theorem cleanup_misses_item_in_hand:
  "processRequests dialed1
     [OnRequest dialed1 (Some resp1, None),
      OnRequest (Some 1, Some 1, Some ''connection refused'') (None, None)]
     [] (conn0 [Request ''a'', Request ''b'', Request ''c''] 0)
   = Some ([DialProxy, RecvRequestOut (Request ''a''),
            RedialProxyIfNecessary (Some 1) (Some 1),
            DoRequest (Some 1) (Some 1) [] OP_WRITE (Request ''a''),
            SendRequestFinished None,
            SendInitialResponse (HostWithResponse ''relay-7'' (Some resp1) None),
            RecvRequestOut (Request ''b''),
            RedialProxyIfNecessary (Some 1) (Some 1),
            Log (mkerror (conn0 [] 0) ''relay-7'' ''Unable to redial proxy''
                   ''connection refused''),
            ProxyConnClose 1,
            RecvRequestOut (Request ''c''), SendRequestFinished (Some io_EOF),
            Lock, SetDoneRequesting, Unlock, CloseRequestOutCh],
           conn0 [] 0\<lparr>requestOutCh_closed := True, doneRequesting := True\<rparr>)
   \<and> (case processRequests dialed1
            [OnRequest dialed1 (Some resp1, None),
             OnRequest (Some 1, Some 1, Some ''connection refused'') (None, None)]
            [] (conn0 [Request ''a'', Request ''b'', Request ''c''] 0) of
         None \<Rightarrow> False
       | Some (evs, c') \<Rightarrow>
           received evs = [Request ''a'', Request ''b'', Request ''c'']
           \<and> acks evs = [None, Some io_EOF])"
  by (simp add: run_defs)

text \<open>
  C3. The first item of a session is the first one the loop receives; before it only
  timer firings on a session that is not idle can have passed. When, for that item,
  \<open>redialProxyIfNecessary\<close> returns an error, or \<open>doRequest\<close> does, the worker
  terminates whatever else the script holds; it has sent on \<open>initialResponseCh\<close> one
  value, with an empty host, no response and the error (wrapped by \<open>mkerror\<close> with the
  destination and the step that failed); and it has made no exchange in the first case
  and the one failed exchange in the second.
\<close>

theorem first_exchange_failure:
  assumes pre: "set pre \<subseteq> {OnTimer False}"
    and q: "requestOutCh c = request # q"
    and opn: "\<not> requestOutCh_closed c"
  shows "(\<exists>evs c'.
            processRequests (pc0, br0, None)
              (pre @ OnRequest (pc, br, Some e) (rp, err) # rest) sched c = Some (evs, c')
            \<and> initial_responses evs
                = [HostWithResponse '''' None
                     (Some (mkerror c '''' ''Unable to redial proxy'' e))]
            \<and> exchanged evs = [])
       \<and> (\<exists>evs c'.
            processRequests (pc0, br0, None)
              (pre @ OnRequest (pc, br, None) (rp, Some e) # rest) sched c = Some (evs, c')
            \<and> initial_responses evs
                = [HostWithResponse '''' None
                     (Some (mkerror c '''' ''Unable to issue write request'' e))]
            \<and> exchanged evs = [request]
            \<and> acks evs = Some e # replicate (length q) (Some io_EOF))"
proof -
  let ?v0 = "\<lparr>proxyConn = pc0, bufReader = br0, proxyHost = '''', first = True, resp = None\<rparr>"
  let ?T = "replicate (length pre) (TimeAfter (IdleTimeout c))"
  have T: "initial_responses ?T = []" "exchanged ?T = []" "acks ?T = []"
    by (induction pre) simp_all
  have opn': "\<not> requestOutCh_closed (c\<lparr>requestOutCh := q\<rparr>)"
    using opn by simp
  have A: "\<exists>evs c'.
            processRequests (pc0, br0, None)
              (pre @ OnRequest (pc, br, Some e) (rp, err) # rest) sched c = Some (evs, c')
            \<and> initial_responses evs
                = [HostWithResponse '''' None
                     (Some (mkerror c '''' ''Unable to redial proxy'' e))]
            \<and> exchanged evs = []"
  proof -
    from cleanup_returns [OF opn'] obtain cevs c' where
      cl: "cleanupAfterRequests None None sched (c\<lparr>requestOutCh := q\<rparr>) = Some (cevs, c')"
      by blast
    from cleanup_no_exchange [OF cl] have k: "exchanged cevs = []" "initial_responses cevs = []"
      by simp_all
    from q cl k T show ?thesis
      by (simp add: processRequests_def processRequests_body_def requestLoop_timers [OF pre]
                    Let_def split: option.splits)
  qed
  have B: "\<exists>evs c'.
            processRequests (pc0, br0, None)
              (pre @ OnRequest (pc, br, None) (rp, Some e) # rest) sched c = Some (evs, c')
            \<and> initial_responses evs
                = [HostWithResponse '''' None
                     (Some (mkerror c '''' ''Unable to issue write request'' e))]
            \<and> exchanged evs = [request]
            \<and> acks evs = Some e # replicate (length q) (Some io_EOF)"
  proof -
    from cleanup_returns [OF opn'] obtain cevs c' where
      cl: "cleanupAfterRequests None None sched (c\<lparr>requestOutCh := q\<rparr>) = Some (cevs, c')"
      by blast
    from cleanup_no_exchange [OF cl] have k: "exchanged cevs = []" "initial_responses cevs = []"
      by simp_all
    from cleanup_acks [OF cl] have a: "acks cevs = replicate (length q) (Some io_EOF)"
      by simp
    from q cl k a T show ?thesis
      by (simp add: processRequests_def processRequests_body_def requestLoop_timers [OF pre]
                    Let_def split: option.splits)
  qed
  from A B show ?thesis ..
qed


theorem first_exchange_failure_witness:
  "set [OnTimer False] \<subseteq> {OnTimer False}
   \<and> requestOutCh (conn0 [Request ''a'', Request ''b''] 0) = Request ''a'' # [Request ''b'']
   \<and> \<not> requestOutCh_closed (conn0 [Request ''a'', Request ''b''] 0)
   \<and> processRequests (Some 1, Some 1, None)
        ([OnTimer False] @ OnRequest (None, None, Some ''connection refused'') (None, None)
           # [OnStop]) [] (conn0 [Request ''a'', Request ''b''] 0)
      = Some ([DialProxy, TimeAfter 30, RecvRequestOut (Request ''a''),
               RedialProxyIfNecessary (Some 1) (Some 1),
               Log (mkerror (conn0 [] 0) '''' ''Unable to redial proxy''
                      ''connection refused''),
               SendInitialResponse
                 (HostWithResponse '''' None
                    (Some (mkerror (conn0 [] 0) '''' ''Unable to redial proxy''
                             ''connection refused''))),
               RecvRequestOut (Request ''b''), SendRequestFinished (Some io_EOF),
               Lock, SetDoneRequesting, Unlock, CloseRequestOutCh],
              conn0 [] 0\<lparr>requestOutCh_closed := True, doneRequesting := True\<rparr>)
   \<and> processRequests (Some 1, Some 1, None)
        ([OnTimer False] @ OnRequest (Some 1, Some 1, None) (None, Some ''broken pipe'')
           # [OnStop]) [] (conn0 [Request ''a'', Request ''b''] 0)
      = Some ([DialProxy, TimeAfter 30, RecvRequestOut (Request ''a''),
               RedialProxyIfNecessary (Some 1) (Some 1),
               DoRequest (Some 1) (Some 1) [] OP_WRITE (Request ''a''),
               SendRequestFinished (Some ''broken pipe''),
               Log (mkerror (conn0 [] 0) '''' ''Unable to issue write request''
                      ''broken pipe''),
               SendInitialResponse
                 (HostWithResponse '''' None
                    (Some (mkerror (conn0 [] 0) '''' ''Unable to issue write request''
                             ''broken pipe''))),
               ProxyConnClose 1,
               RecvRequestOut (Request ''b''), SendRequestFinished (Some io_EOF),
               Lock, SetDoneRequesting, Unlock, CloseRequestOutCh],
              conn0 [] 0\<lparr>requestOutCh_closed := True, doneRequesting := True\<rparr>)"
proof -
  have pre: "set [OnTimer False] \<subseteq> {OnTimer False}"
    by simp
  have q: "requestOutCh (conn0 [Request ''a'', Request ''b''] 0)
             = Request ''a'' # [Request ''b'']"
    by (simp add: conn0_def)
  have opn: "\<not> requestOutCh_closed (conn0 [Request ''a'', Request ''b''] 0)"
    by (simp add: conn0_def)
  from first_exchange_failure [OF pre q opn, where ?pc0.0 = "Some 1" and ?br0.0 = "Some 1"
      and pc = None and br = None and e = "''connection refused''" and rp = None
      and err = None and rest = "[OnStop]" and sched = "[]"]
    pre q opn
  show ?thesis
    by (simp add: run_defs)
qed

text \<open>
  C4. After a run of the worker, and so of its cleanup, the flag \<open>doneRequesting\<close> is
  set and the input channel is closed; the flag is set once in the whole run, between
  the \<open>Lock\<close> and the \<open>Unlock\<close> of \<open>requestMutex\<close>, directly before the channel
  is closed; and every later \<open>submitRequest\<close> takes and releases the read lock, returns
  false and leaves the connection, its input channel included, as it was.
\<close>

theorem no_writes_after_cleanup:
  assumes "processRequests dial script sched c = Some (evs, c')"
  shows "doneRequesting c' \<and> requestOutCh_closed c'
         \<and> (\<exists>pre. evs = pre @ [Lock, SetDoneRequesting, Unlock, CloseRequestOutCh]
                   \<and> SetDoneRequesting \<notin> set pre)
         \<and> (\<forall>request. submitRequest request c' = ([RLock, RUnlock], Return False, c'))"
proof -
  from assms obtain bevs x v c1 cevs where
    body: "processRequests_body dial script c = Some (bevs, x, v, c1)" and
    cleanup: "cleanupAfterRequests None (recover x) sched c1 = Some (cevs, c')" and
    evs: "evs = bevs @ cevs"
    by (rule processRequests_split)
  from cleanup_state [OF cleanup] have st: "doneRequesting c'" "requestOutCh_closed c'"
    by simp_all
  from cleanup_shape [OF cleanup] obtain pre where
    pre: "cevs = pre @ [Lock, SetDoneRequesting, Unlock, CloseRequestOutCh]"
      "SetDoneRequesting \<notin> set pre"
    by blast
  from processRequests_body_no_SetDoneRequesting [OF body] pre evs
  have "evs = (bevs @ pre) @ [Lock, SetDoneRequesting, Unlock, CloseRequestOutCh]
        \<and> SetDoneRequesting \<notin> set (bevs @ pre)"
    by simp
  then have "\<exists>pre. evs = pre @ [Lock, SetDoneRequesting, Unlock, CloseRequestOutCh]
                   \<and> SetDoneRequesting \<notin> set pre"
    by blast
  with st show ?thesis
    by (simp add: submitRequest_def)
qed

theorem no_writes_after_cleanup_witness:
  "processRequests dialed1 [OnRequest dialed1 (Some resp1, None), OnStop] []
     (conn0 [Request ''a''] 1)
   = Some ([DialProxy, RecvRequestOut (Request ''a''),
            RedialProxyIfNecessary (Some 1) (Some 1),
            DoRequest (Some 1) (Some 1) [] OP_WRITE (Request ''a''),
            SendRequestFinished None,
            SendInitialResponse (HostWithResponse ''relay-7'' (Some resp1) None),
            RecvStopRequest, ProxyConnClose 1,
            Lock, SetDoneRequesting, Unlock, CloseRequestOutCh],
           conn0 [] 0\<lparr>requestOutCh_closed := True, doneRequesting := True\<rparr>)
   \<and> submitRequest (Request ''late'')
        (conn0 [] 0\<lparr>requestOutCh_closed := True, doneRequesting := True\<rparr>)
      = ([RLock, RUnlock], Return False,
         conn0 [] 0\<lparr>requestOutCh_closed := True, doneRequesting := True\<rparr>)"
proof -
  have run: "processRequests dialed1 [OnRequest dialed1 (Some resp1, None), OnStop] []
     (conn0 [Request ''a''] 1)
   = Some ([DialProxy, RecvRequestOut (Request ''a''),
            RedialProxyIfNecessary (Some 1) (Some 1),
            DoRequest (Some 1) (Some 1) [] OP_WRITE (Request ''a''),
            SendRequestFinished None,
            SendInitialResponse (HostWithResponse ''relay-7'' (Some resp1) None),
            RecvStopRequest, ProxyConnClose 1,
            Lock, SetDoneRequesting, Unlock, CloseRequestOutCh],
           conn0 [] 0\<lparr>requestOutCh_closed := True, doneRequesting := True\<rparr>)"
    by (simp add: run_defs)
  from no_writes_after_cleanup [OF run] run show ?thesis
    by simp
qed

text \<open>
  C5. The first item of a session is the first one the loop receives; before it only
  timer firings on a session that is not idle can have passed. When the exchange for
  that item succeeds with response \<open>r\<close>, the iteration sends the value of the header
  \<open>X_ENPROXY_PROXY_HOST\<close> of \<open>r\<close> on \<open>initialResponseCh\<close>, together with \<open>r\<close> itself
  and no error, and keeps it in \<open>proxyHost\<close>. From then on, however far the worker has
  got and whether or not it has terminated: that value is the only one sent on
  \<open>initialResponseCh\<close>; the first exchange was made with an empty host and every later
  one with that header value; and \<open>proxyHost\<close> still holds it.
\<close>

theorem pin_learned_once:
  assumes pre: "set pre \<subseteq> {OnTimer False}"
    and q: "requestOutCh c = request # q"
  shows "loopBody \<lparr>proxyConn = pc0, bufReader = br0, proxyHost = '''', first = True,
                    resp = None\<rparr>
           (OnRequest (pc, br, None) (Some r, None)) c
         = Some ([RecvRequestOut request, RedialProxyIfNecessary pc0 br0,
                  DoRequest pc br '''' OP_WRITE request, SendRequestFinished None,
                  SendInitialResponse
                    (HostWithResponse (header_X_ENPROXY_PROXY_HOST r) (Some r) None)],
                 Continue,
                 \<lparr>proxyConn = pc, bufReader = br,
                    proxyHost = header_X_ENPROXY_PROXY_HOST r, first = False,
                    resp = Some r\<rparr>,
                 c\<lparr>requestOutCh := q\<rparr>)
       \<and> (case requestLoop_progress
                 \<lparr>proxyConn = pc0, bufReader = br0, proxyHost = '''', first = True,
                    resp = None\<rparr>
                 (pre @ OnRequest (pc, br, None) (Some r, None) # rest) c of
            (evs, v, c') \<Rightarrow>
              initial_responses evs
                = [HostWithResponse (header_X_ENPROXY_PROXY_HOST r) (Some r) None]
              \<and> pins evs = '''' # replicate (length (exchanged evs) - 1)
                                      (header_X_ENPROXY_PROXY_HOST r)
              \<and> proxyHost v = header_X_ENPROXY_PROXY_HOST r)
       \<and> (\<forall>sched evs c'.
             processRequests (pc0, br0, None)
               (pre @ OnRequest (pc, br, None) (Some r, None) # rest) sched c = Some (evs, c')
             \<longrightarrow> initial_responses evs
                   = [HostWithResponse (header_X_ENPROXY_PROXY_HOST r) (Some r) None]
                 \<and> pins evs = '''' # replicate (length (exchanged evs) - 1)
                                         (header_X_ENPROXY_PROXY_HOST r))"
proof -
  let ?v0 = "\<lparr>proxyConn = pc0, bufReader = br0, proxyHost = '''', first = True, resp = None\<rparr>"
  let ?script = "pre @ OnRequest (pc, br, None) (Some r, None) # rest"
  have step: "loopBody ?v0 (OnRequest (pc, br, None) (Some r, None)) c
         = Some ([RecvRequestOut request, RedialProxyIfNecessary pc0 br0,
                  DoRequest pc br '''' OP_WRITE request, SendRequestFinished None,
                  SendInitialResponse
                    (HostWithResponse (header_X_ENPROXY_PROXY_HOST r) (Some r) None)],
                 Continue,
                 \<lparr>proxyConn = pc, bufReader = br,
                    proxyHost = header_X_ENPROXY_PROXY_HOST r, first = False,
                    resp = Some r\<rparr>,
                 c\<lparr>requestOutCh := q\<rparr>)"
    using q by (simp add: Let_def)
  obtain evs v c' where prog: "requestLoop_progress ?v0 ?script c = (evs, v, c')"
    by (cases "requestLoop_progress ?v0 ?script c") auto
  have "first ?v0"
    by simp
  from first_success_progress [OF pre q this prog] prog
  have progress: "case requestLoop_progress ?v0 ?script c of
            (evs, v, c') \<Rightarrow>
              initial_responses evs
                = [HostWithResponse (header_X_ENPROXY_PROXY_HOST r) (Some r) None]
              \<and> pins evs = '''' # replicate (length (exchanged evs) - 1)
                                      (header_X_ENPROXY_PROXY_HOST r)
              \<and> proxyHost v = header_X_ENPROXY_PROXY_HOST r"
    by simp
  have "initial_responses evs'
          = [HostWithResponse (header_X_ENPROXY_PROXY_HOST r) (Some r) None]
        \<and> pins evs' = '''' # replicate (length (exchanged evs') - 1)
                                 (header_X_ENPROXY_PROXY_HOST r)"
    if "processRequests (pc0, br0, None) ?script sched c = Some (evs', c'')"
    for sched evs' c''
    using processRequests_pinned [OF pre that] by simp
  with step progress show ?thesis
    by blast
qed

theorem pin_learned_once_witness:
  "set [OnTimer False] \<subseteq> {OnTimer False}
   \<and> requestOutCh (conn0 [Request ''a'', Request ''b''] 0) = Request ''a'' # [Request ''b'']
   \<and> requestLoop_progress
        \<lparr>proxyConn = Some 1, bufReader = Some 1, proxyHost = '''', first = True, resp = None\<rparr>
        ([OnTimer False] @ OnRequest (Some 1, Some 1, None) (Some resp1, None)
           # [OnRequest (Some 2, Some 2, None) (Some resp2, None)])
        (conn0 [Request ''a'', Request ''b''] 0)
      = ([TimeAfter 30, RecvRequestOut (Request ''a''),
          RedialProxyIfNecessary (Some 1) (Some 1),
          DoRequest (Some 1) (Some 1) [] OP_WRITE (Request ''a''),
          SendRequestFinished None,
          SendInitialResponse (HostWithResponse ''relay-7'' (Some resp1) None),
          RecvRequestOut (Request ''b''),
          RedialProxyIfNecessary (Some 1) (Some 1),
          DoRequest (Some 2) (Some 2) ''relay-7'' OP_WRITE (Request ''b''),
          SendRequestFinished None, BodyClose resp2],
         \<lparr>proxyConn = Some 2, bufReader = Some 2, proxyHost = ''relay-7'', first = False,
            resp = Some resp2\<rparr>,
         conn0 [] 0)
   \<and> requestLoop
        \<lparr>proxyConn = Some 1, bufReader = Some 1, proxyHost = '''', first = True, resp = None\<rparr>
        ([OnTimer False] @ OnRequest (Some 1, Some 1, None) (Some resp1, None)
           # [OnRequest (Some 2, Some 2, None) (Some resp2, None)])
        (conn0 [Request ''a'', Request ''b''] 0)
      = None
   \<and> header_X_ENPROXY_PROXY_HOST resp1 = ''relay-7''
   \<and> pins [TimeAfter 30, RecvRequestOut (Request ''a''),
            RedialProxyIfNecessary (Some 1) (Some 1),
            DoRequest (Some 1) (Some 1) [] OP_WRITE (Request ''a''),
            SendRequestFinished None,
            SendInitialResponse (HostWithResponse ''relay-7'' (Some resp1) None),
            RecvRequestOut (Request ''b''),
            RedialProxyIfNecessary (Some 1) (Some 1),
            DoRequest (Some 2) (Some 2) ''relay-7'' OP_WRITE (Request ''b''),
            SendRequestFinished None, BodyClose resp2]
      = [[], ''relay-7'']"
proof -
  have pre: "set [OnTimer False] \<subseteq> {OnTimer False}"
    by simp
  have q: "requestOutCh (conn0 [Request ''a'', Request ''b''] 0)
             = Request ''a'' # [Request ''b'']"
    by (simp add: conn0_def)
  from pin_learned_once [OF pre q, where ?pc0.0 = "Some 1" and ?br0.0 = "Some 1"
      and pc = "Some 1" and br = "Some 1" and r = resp1
      and rest = "[OnRequest (Some 2, Some 2, None) (Some resp2, None)]"]
    pre q
  show ?thesis
    by (simp add: run_defs)
qed

text \<open>
  C6. The claim fails on the worker's own first dial. The transport dialer returns an
  error, as the dialer of the repository's test \<open>doTestBad\<close> does: the worker logs the
  error and returns, the cleanup answers the waiting item with \<open>io.EOF\<close>, and nothing
  at all is sent on \<open>initialResponseCh\<close>, so \<open>Dial\<close> is handed neither a stream nor
  the error. The path next to it does hand the error over: when the same dialer error
  comes from \<open>redialProxyIfNecessary\<close> for the first item, \<open>Dial\<close> receives it.
\<close>

theorem first_dial_failure_not_handed_over:
  "processRequests (None, None, Some ''dial fakebad: unknown network fakebad'') [] []
     (conn0 [Request ''a''] 0)
   = Some ([DialProxy,
            Log ''Unable to dial proxy for POSTing request: dial fakebad: unknown network fakebad'',
            RecvRequestOut (Request ''a''), SendRequestFinished (Some io_EOF),
            Lock, SetDoneRequesting, Unlock, CloseRequestOutCh],
           conn0 [] 0\<lparr>requestOutCh_closed := True, doneRequesting := True\<rparr>)
   \<and> Dial (initial_responses
             [DialProxy,
              Log ''Unable to dial proxy for POSTing request: dial fakebad: unknown network fakebad'',
              RecvRequestOut (Request ''a''), SendRequestFinished (Some io_EOF),
              Lock, SetDoneRequesting, Unlock, CloseRequestOutCh])
      = None
   \<and> (case processRequests (Some 1, Some 1, None)
              [OnRequest (None, None, Some ''dial fakebad: unknown network fakebad'')
                 (None, None)]
              [] (conn0 [Request ''a''] 0) of
         None \<Rightarrow> None
       | Some (evs, c') \<Rightarrow> Dial (initial_responses evs))
      = Some (Inl (mkerror (conn0 [] 0) '''' ''Unable to redial proxy''
                     ''dial fakebad: unknown network fakebad''))"
  by (simp add: run_defs)

text \<open>
  C7. In every run that terminates, each call of \<open>doRequest\<close> comes directly after a
  call of \<open>redialProxyIfNecessary\<close>. In an iteration that receives an item, the
  exchange runs on the connection and reader that call returns: the ones already held
  when the connection is still usable, the ones the dialer returns when it is not. When
  the exchange then fails, the failure is sent on \<open>requestFinishedCh\<close>, the wrapped
  error is logged (and handed over on \<open>initialResponseCh\<close> if no exchange has
  succeeded before), and the loop is left by a return: the item has been exchanged
  once, and nothing left in the script is run.
\<close>

theorem exchange_failure_is_terminal:
  assumes q: "requestOutCh c = request # q"
    and redial: "redialProxyIfNecessary usable dialed (proxyConn v) (bufReader v) = (pc, br, None)"
  shows "requestLoop v
           (OnRequest (redialProxyIfNecessary usable dialed (proxyConn v) (bufReader v))
              (rp, Some e) # rest) c
         = Some ([RecvRequestOut request,
                  RedialProxyIfNecessary (proxyConn v) (bufReader v),
                  DoRequest pc br (proxyHost v) OP_WRITE request,
                  SendRequestFinished (Some e),
                  Log (mkerror c (proxyHost v) ''Unable to issue write request'' e)]
                 @ (if first v
                    then [SendInitialResponse
                            (HostWithResponse '''' None
                               (Some (mkerror c (proxyHost v)
                                        ''Unable to issue write request'' e)))]
                    else []),
                 Return (),
                 v\<lparr>proxyConn := pc, bufReader := br, resp := rp\<rparr>,
                 c\<lparr>requestOutCh := q\<rparr>)
         \<and> (usable \<longrightarrow> pc = proxyConn v \<and> br = bufReader v)
         \<and> (\<not> usable \<longrightarrow> dialed = (pc, br, None))
         \<and> (\<forall>dial script sched c0 evs c'.
               processRequests dial script sched c0 = Some (evs, c')
               \<longrightarrow> redial_precedes False evs)"
  using q redial processRequests_redial_precedes
  by (auto simp: redialProxyIfNecessary_def Let_def split: if_splits)


theorem exchange_failure_is_terminal_witness:
  "requestOutCh (conn0 [Request ''b'', Request ''c''] 0) = Request ''b'' # [Request ''c'']
   \<and> redialProxyIfNecessary False (Some 2, Some 2, None) (Some 1) (Some 1)
      = (Some 2, Some 2, None)
   \<and> requestLoop
        \<lparr>proxyConn = Some 1, bufReader = Some 1, proxyHost = ''relay-7'', first = False,
           resp = Some resp1\<rparr>
        (OnRequest (redialProxyIfNecessary False (Some 2, Some 2, None) (Some 1) (Some 1))
           (None, Some ''broken pipe'')
         # [OnRequest (Some 2, Some 2, None) (Some resp2, None)])
        (conn0 [Request ''b'', Request ''c''] 0)
      = Some ([RecvRequestOut (Request ''b''),
               RedialProxyIfNecessary (Some 1) (Some 1),
               DoRequest (Some 2) (Some 2) ''relay-7'' OP_WRITE (Request ''b''),
               SendRequestFinished (Some ''broken pipe''),
               Log (mkerror (conn0 [] 0) ''relay-7'' ''Unable to issue write request''
                      ''broken pipe'')],
              Return (),
              \<lparr>proxyConn = Some 2, bufReader = Some 2, proxyHost = ''relay-7'', first = False,
                 resp = None\<rparr>,
              conn0 [Request ''c''] 0)"
proof -
  have q: "requestOutCh (conn0 [Request ''b'', Request ''c''] 0)
             = Request ''b'' # [Request ''c'']"
    by (simp add: conn0_def)
  have redial: "redialProxyIfNecessary False (Some 2, Some 2, None)
                  (proxyConn \<lparr>proxyConn = Some 1, bufReader = Some 1, proxyHost = ''relay-7'',
                               first = False, resp = Some resp1\<rparr>)
                  (bufReader \<lparr>proxyConn = Some 1, bufReader = Some 1, proxyHost = ''relay-7'',
                               first = False, resp = Some resp1\<rparr>)
                = (Some 2, Some 2, None)"
    by (simp add: redialProxyIfNecessary_def)
  from exchange_failure_is_terminal [OF q redial, where rp = None and e = "''broken pipe''"
      and rest = "[OnRequest (Some 2, Some 2, None) (Some resp2, None)]"]
    q redial
  show ?thesis
    by (simp add: conn0_def mkerror_def)
qed

text \<open>
  C8. The timer of an iteration runs for \<open>c.Config.IdleTimeout\<close>. When it is the case
  the \<open>select\<close> takes and \<open>isIdle\<close> is true, the loop is left by a return, with no
  exchange and whatever the script holds next. When \<open>isIdle\<close> is false the loop goes
  on with its variables and the connection unchanged, as it would have without the
  timer. And in every run that terminates, what directly follows a call of \<open>doRequest\<close>
  is never a timer firing.
\<close>

theorem idle_timer:
  "requestLoop v (OnTimer True # rest) c = Some ([TimeAfter (IdleTimeout c)], Return (), v, c)
   \<and> requestLoop v (OnTimer False # rest) c =
       (case requestLoop v rest c of
          None \<Rightarrow> None
        | Some (evs, r) \<Rightarrow> Some (TimeAfter (IdleTimeout c) # evs, r))
   \<and> (\<forall>evs c' i d.
         processRequests dial script sched c = Some (evs, c') \<and> Suc i < length evs
         \<and> is_DoRequest (evs ! i) \<longrightarrow> evs ! Suc i \<noteq> TimeAfter d)"
proof -
  have "evs ! Suc i \<noteq> TimeAfter d"
    if "processRequests dial script sched c = Some (evs, c')" "Suc i < length evs"
      "is_DoRequest (evs ! i)" for evs c' i d
    using one_in_flight_nth [OF processRequests_one_in_flight [OF that(1)] that(2,3)]
    by auto
  then show ?thesis
    by (auto split: option.splits)
qed


theorem idle_timer_witness:
  "requestLoop
     \<lparr>proxyConn = Some 1, bufReader = Some 1, proxyHost = '''', first = True, resp = None\<rparr>
     (OnTimer True # [OnStop]) (conn0 [Request ''a''] 1)
   = Some ([TimeAfter 30], Return (),
           \<lparr>proxyConn = Some 1, bufReader = Some 1, proxyHost = '''', first = True,
              resp = None\<rparr>,
           conn0 [Request ''a''] 1)
   \<and> requestLoop
       \<lparr>proxyConn = Some 1, bufReader = Some 1, proxyHost = '''', first = True, resp = None\<rparr>
       (OnTimer False # [OnStop]) (conn0 [Request ''a''] 1)
     = Some ([TimeAfter 30, RecvStopRequest], Return (),
             \<lparr>proxyConn = Some 1, bufReader = Some 1, proxyHost = '''', first = True,
                resp = None\<rparr>,
             conn0 [Request ''a''] 0)
   \<and> processRequests (Some 1, Some 1, None)
       [OnTimer False, OnRequest (Some 1, Some 1, None) (Some resp1, None), OnTimer True] []
       (conn0 [Request ''a''] 1)
     = Some ([DialProxy, TimeAfter 30, RecvRequestOut (Request ''a''),
              RedialProxyIfNecessary (Some 1) (Some 1),
              DoRequest (Some 1) (Some 1) [] OP_WRITE (Request ''a''),
              SendRequestFinished None,
              SendInitialResponse (HostWithResponse ''relay-7'' (Some resp1) None),
              TimeAfter 30, ProxyConnClose 1, RecvStopRequest,
              Lock, SetDoneRequesting, Unlock, CloseRequestOutCh],
             conn0 [] 0\<lparr>requestOutCh_closed := True, doneRequesting := True\<rparr>)
   \<and> [DialProxy, TimeAfter 30, RecvRequestOut (Request ''a''),
       RedialProxyIfNecessary (Some 1) (Some 1),
       DoRequest (Some 1) (Some 1) [] OP_WRITE (Request ''a''),
       SendRequestFinished None,
       SendInitialResponse (HostWithResponse ''relay-7'' (Some resp1) None),
       TimeAfter 30, ProxyConnClose 1, RecvStopRequest,
       Lock, SetDoneRequesting, Unlock, CloseRequestOutCh] ! Suc 4 \<noteq> TimeAfter 30"
proof -
  have run: "processRequests (Some 1, Some 1, None)
       [OnTimer False, OnRequest (Some 1, Some 1, None) (Some resp1, None), OnTimer True] []
       (conn0 [Request ''a''] 1)
     = Some ([DialProxy, TimeAfter 30, RecvRequestOut (Request ''a''),
              RedialProxyIfNecessary (Some 1) (Some 1),
              DoRequest (Some 1) (Some 1) [] OP_WRITE (Request ''a''),
              SendRequestFinished None,
              SendInitialResponse (HostWithResponse ''relay-7'' (Some resp1) None),
              TimeAfter 30, ProxyConnClose 1, RecvStopRequest,
              Lock, SetDoneRequesting, Unlock, CloseRequestOutCh],
             conn0 [] 0\<lparr>requestOutCh_closed := True, doneRequesting := True\<rparr>)"
    by (simp add: run_defs)
  from idle_timer [where v = "\<lparr>proxyConn = Some 1, bufReader = Some 1, proxyHost = '''',
                                first = True, resp = None\<rparr>"
      and rest = "[OnStop]"
      and c = "conn0 [Request ''a''] 1" and dial = "(Some 1, Some 1, None)"
      and script = "[OnTimer False, OnRequest (Some 1, Some 1, None) (Some resp1, None),
                     OnTimer True]"
      and sched = "[]"]
    run
  show ?thesis
    by (simp add: run_defs)
qed

text \<open>
  C9. The claim fails on the response handed to the cleanup: the deferred call
  \<open>cleanupAfterRequests(resp)\<close> receives the value \<open>resp\<close> had at the \<open>defer\<close>
  statement, \<open>nil\<close>, in every run. Here one item is exchanged and then the stop signal
  arrives: when the body ends the variable \<open>resp\<close> holds the response of that exchange,
  the run closes no response body, and the cleanup would have closed it had it been
  given that response.
\<close>

theorem cleanup_receives_nil_response:
  "processRequests_body dialed1 [OnRequest dialed1 (Some resp1, None), OnStop]
     (conn0 [Request ''a''] 1)
   = Some ([DialProxy, RecvRequestOut (Request ''a''),
            RedialProxyIfNecessary (Some 1) (Some 1),
            DoRequest (Some 1) (Some 1) [] OP_WRITE (Request ''a''),
            SendRequestFinished None,
            SendInitialResponse (HostWithResponse ''relay-7'' (Some resp1) None),
            RecvStopRequest, ProxyConnClose 1],
           Return (),
           \<lparr>proxyConn = Some 1, bufReader = Some 1, proxyHost = ''relay-7'', first = False,
              resp = Some resp1\<rparr>,
           conn0 [] 0)
   \<and> processRequests dialed1 [OnRequest dialed1 (Some resp1, None), OnStop] []
        (conn0 [Request ''a''] 1)
      = Some ([DialProxy, RecvRequestOut (Request ''a''),
               RedialProxyIfNecessary (Some 1) (Some 1),
               DoRequest (Some 1) (Some 1) [] OP_WRITE (Request ''a''),
               SendRequestFinished None,
               SendInitialResponse (HostWithResponse ''relay-7'' (Some resp1) None),
               RecvStopRequest, ProxyConnClose 1,
               Lock, SetDoneRequesting, Unlock, CloseRequestOutCh],
              conn0 [] 0\<lparr>requestOutCh_closed := True, doneRequesting := True\<rparr>)
   \<and> cleanupAfterRequests (Some resp1) None [] (conn0 [] 0)
      = Some ([Lock, SetDoneRequesting, Unlock, CloseRequestOutCh, BodyClose resp1],
              conn0 [] 0\<lparr>requestOutCh_closed := True, doneRequesting := True\<rparr>)"
  by (simp add: run_defs)

text \<open>
  C10. The claim fails where \<open>redialProxyIfNecessary\<close> returns an error: the item has
  been received from the input channel, and the worker logs the error and returns
  without sending anything on \<open>requestFinishedCh\<close> for it. Here two items are waiting;
  the first is exchanged and acknowledged; for the second the redial fails. Both items
  are received, and one acknowledgment is sent in the whole run.
\<close>

theorem redial_failure_leaves_item_unacknowledged:
  "processRequests dialed1
     [OnRequest dialed1 (Some resp1, None),
      OnRequest (Some 1, Some 1, Some ''connection refused'') (None, None)]
     [] (conn0 [Request ''a'', Request ''b''] 0)
   = Some ([DialProxy, RecvRequestOut (Request ''a''),
            RedialProxyIfNecessary (Some 1) (Some 1),
            DoRequest (Some 1) (Some 1) [] OP_WRITE (Request ''a''),
            SendRequestFinished None,
            SendInitialResponse (HostWithResponse ''relay-7'' (Some resp1) None),
            RecvRequestOut (Request ''b''),
            RedialProxyIfNecessary (Some 1) (Some 1),
            Log (mkerror (conn0 [] 0) ''relay-7'' ''Unable to redial proxy''
                   ''connection refused''),
            ProxyConnClose 1,
            Lock, SetDoneRequesting, Unlock, CloseRequestOutCh],
           conn0 [] 0\<lparr>requestOutCh_closed := True, doneRequesting := True\<rparr>)
   \<and> (case processRequests dialed1
            [OnRequest dialed1 (Some resp1, None),
             OnRequest (Some 1, Some 1, Some ''connection refused'') (None, None)]
            [] (conn0 [Request ''a'', Request ''b''] 0) of
         None \<Rightarrow> False
       | Some (evs, c') \<Rightarrow> received evs = [Request ''a'', Request ''b''] \<and> acks evs = [None])"
  by (simp add: run_defs)

end
